theory Spec2Isabelle
  imports Complex_Main "HOL-Library.Word"
begin

unbundle bit_operations_syntax

section \<open>Data model\<close>

text \<open>
  A Python \<open>bytes\<close> object is a list of bytes; each element, once indexed or iterated,
  is a Python integer in \<open>0..255\<close> (\<open>uint b\<close>). Python integers are unbounded, so every
  integer variable of the source (\<open>crc\<close>, \<open>msb\<close>, \<open>lsb\<close>, \<open>data_value\<close>, the two CRC
  values) is an \<open>int\<close>; \<open>^\<close>, \<open>&\<close>, \<open>|\<close>, \<open>>>\<close> and \<open><<\<close> are \<open>XOR\<close>, \<open>AND\<close>, \<open>OR\<close>,
  \<open>drop_bit\<close> and \<open>push_bit\<close> on \<open>int\<close>.
\<close>

type_synonym byte = "8 word"

text \<open>The exceptions that the modelled code can meet.\<close>

datatype py_exception = SerialException | StructError

subsection \<open>The serial line and the console\<close>

text \<open>
  The serial port is opened with \<open>timeout=1\<close>. \<open>ser.read(n)\<close> of pySerial blocks until
  \<open>n\<close> bytes have arrived or the timeout has expired, and returns the bytes it has got by
  then (possibly none); it raises \<open>SerialException\<close> when the port fails. The line is
  modelled by what it will deliver: a list of events, each a byte that arrives, a silence
  that lasts until the pending read times out (\<open>Quiet\<close>), or a failure of the port met by
  the pending read (\<open>Fault\<close>). When the list is exhausted the line stays silent for ever:
  every later read times out with no byte.

  \<open>wr\<close> is the outcome of the successive \<open>ser.write\<close> calls (\<open>True\<close>: the write
  succeeds, \<open>False\<close>: it raises \<open>SerialException\<close>; when exhausted, writes succeed),
  \<open>tx\<close> the frames written so far, \<open>out\<close> the lines printed so far.
\<close>

datatype line_event = Byte byte | Quiet | Fault

datatype message =
    CommandSent "byte list"
  | ValidFrame "byte list"
  | Extracted int int int
  | CrcMismatch int int
  | SerialError

record io_state =
  rx :: "line_event list"
  wr :: "bool list"
  tx :: "byte list list"
  out :: "message list"

fun line_take :: "nat \<Rightarrow> line_event list \<Rightarrow> (py_exception + byte list) \<times> line_event list" where
  "line_take 0 evs = (Inr [], evs)"
| "line_take (Suc n) [] = (Inr [], [])"
| "line_take (Suc n) (Quiet # evs) = (Inr [], evs)"
| "line_take (Suc n) (Fault # evs) = (Inl SerialException, evs)"
| "line_take (Suc n) (Byte b # evs) =
     (case line_take n evs of
        (Inl e, rest) \<Rightarrow> (Inl e, rest)
      | (Inr bs, rest) \<Rightarrow> (Inr (b # bs), rest))"

definition ser_read :: "nat \<Rightarrow> io_state \<Rightarrow> (py_exception + byte list) \<times> io_state" where
  "ser_read n s = (case line_take n (rx s) of (r, rest) \<Rightarrow> (r, s\<lparr>rx := rest\<rparr>))"

definition ser_write :: "byte list \<Rightarrow> io_state \<Rightarrow> (py_exception + unit) \<times> io_state" where
  "ser_write bs s =
     (case wr s of
        [] \<Rightarrow> (Inr (), s\<lparr>tx := tx s @ [bs]\<rparr>)
      | ok # rest \<Rightarrow>
          if ok then (Inr (), s\<lparr>wr := rest, tx := tx s @ [bs]\<rparr>)
          else (Inl SerialException, s\<lparr>wr := rest\<rparr>))"

definition print :: "message \<Rightarrow> io_state \<Rightarrow> io_state" where
  "print m s = s\<lparr>out := out s @ [m]\<rparr>"

text \<open>
  \<open>struct.pack('<H', v)\<close>: the two bytes of \<open>v\<close>, low byte first; \<open>struct.error\<close> when
  \<open>v\<close> is not in \<open>0..65535\<close>. \<open>struct.unpack('<H', bs)[0]\<close> reads such a pair back; the
  source calls it on \<open>frame[-2:]\<close> of a frame of at least 7 bytes, which has exactly two
  bytes.
\<close>

definition struct_pack_H :: "int \<Rightarrow> py_exception + byte list" where
  "struct_pack_H v =
     (if 0 \<le> v \<and> v \<le> 0xFFFF
      then Inr [word_of_int (v AND 0xFF), word_of_int (drop_bit 8 v)]
      else Inl StructError)"

definition struct_unpack_H :: "byte list \<Rightarrow> int" where
  "struct_unpack_H bs = uint (bs ! 0) OR push_bit 8 (uint (bs ! 1))"

section \<open>CRC16 (\<open>read_current.py\<close>, \<open>calculate_crc16\<close>)\<close>

text \<open>One round of the inner loop: the body of \<open>for _ in range(8)\<close>.\<close>

definition crc_shift :: "int \<Rightarrow> int" where
  "crc_shift crc = (if crc AND 0x0001 \<noteq> 0 then drop_bit 1 crc XOR 0xA001 else drop_bit 1 crc)"

text \<open>The body of \<open>for byte in data\<close>: \<open>crc ^= byte\<close>, then the eight rounds.\<close>

definition crc_update :: "int \<Rightarrow> byte \<Rightarrow> int" where
  "crc_update crc b = (crc_shift ^^ 8) (crc XOR uint b)"

definition calculate_crc16 :: "byte list \<Rightarrow> int" where
  "calculate_crc16 data = foldl crc_update 0xFFFF data AND 0xFFFF"

subsection \<open>The reference definition, after the specification's words\<close>

text \<open>
  The specification's Modbus-RTU CRC16 on a 16-bit accumulator: start at \<open>0xFFFF\<close>; for
  each byte, XOR it into the low byte of the accumulator, then eight times shift right by
  one, XORing with \<open>0xA001\<close> when the bit shifted out was set.
\<close>

definition spec_crc16_round :: "16 word \<Rightarrow> 16 word" where
  "spec_crc16_round acc = (if bit acc 0 then drop_bit 1 acc XOR 0xA001 else drop_bit 1 acc)"

definition spec_crc16_byte :: "16 word \<Rightarrow> byte \<Rightarrow> 16 word" where
  "spec_crc16_byte acc b = (spec_crc16_round ^^ 8) (acc XOR ucast b)"

definition spec_crc16 :: "byte list \<Rightarrow> 16 word" where
  "spec_crc16 bs = foldl spec_crc16_byte 0xFFFF bs"

subsection \<open>Frame validation, after the specification's words\<close>

text \<open>
  The specification's \<open>validate_frame\<close> with its typed errors, for the comparison with
  what the code does. The checks come in the specification's order: the length, the
  address in the first byte, the CRC16 of all bytes but the last two against the
  little-endian value of the last two; the value is \<open>(MSB << 8) | LSB\<close> of bytes 3 and 4.
\<close>

datatype frame_error =
  Timeout | IncompleteFrame | UnexpectedAddress | ChecksumMismatch | TransportClosed

definition spec_le_value :: "byte list \<Rightarrow> int" where
  "spec_le_value bs = foldr (\<lambda>b acc. uint b + 256 * acc) bs 0"

definition spec_validate_frame :: "nat \<Rightarrow> byte \<Rightarrow> byte list \<Rightarrow> frame_error + int" where
  "spec_validate_frame expected_len address bs =
     (if length bs \<noteq> expected_len then Inl IncompleteFrame
      else if take 1 bs \<noteq> [address] then Inl UnexpectedAddress
      else if uint (spec_crc16 (take (length bs - 2) bs)) \<noteq> spec_le_value (drop (length bs - 2) bs)
        then Inl ChecksumMismatch
      else Inr (push_bit 8 (uint (bs ! 3)) OR uint (bs ! 4)))"

section \<open>The command (\<open>read_current.py\<close>, \<open>send_command\<close>)\<close>

definition send_command :: "io_state \<Rightarrow> (py_exception + unit) \<times> io_state" where
  "send_command s =
     (let command = [0x01, 0x03, 0x00, 0x56, 0x00, 0x01] in
      case struct_pack_H (calculate_crc16 command) of
        Inl e \<Rightarrow> (Inl e, s)
      | Inr packed \<Rightarrow>
          (let command = command @ packed in
           case ser_write command s of
             (Inl e, s1) \<Rightarrow> (Inl e, s1)
           | (Inr u, s1) \<Rightarrow> (Inr (), print (CommandSent command) s1)))"

section \<open>The receiver (\<open>read_current.py\<close>, \<open>receive_data_with_crc\<close>)\<close>

text \<open>
  The \<open>while True\<close> loop may run for ever, so the function is partial: \<open>None\<close> means that
  the call never returns. When it returns, the result is Python's return value
  (\<open>Some v\<close> for the integer \<open>v\<close>, \<open>None\<close> for Python's \<open>None\<close>, which is what the
  function returns after the \<open>except serial.SerialException\<close> clause has printed the
  error) and the state reached. \<open>frame ! 3\<close>, \<open>frame ! 4\<close> and the two slices are
  evaluated only where the frame has at least 7 bytes, \<open>start_byte ! 0\<close> only where the
  read returned a byte.
\<close>

partial_function (option) receive_data_with_crc ::
  "io_state \<Rightarrow> (int option \<times> io_state) option" where
  "receive_data_with_crc s =
     (case ser_read 1 s of
        (Inl e, s1) \<Rightarrow> Some (None, print SerialError s1)
      | (Inr start_byte, s1) \<Rightarrow>
          if start_byte = [] then receive_data_with_crc s1
          else if start_byte ! 0 = 0x01 then
            (case ser_read 6 s1 of
               (Inl e, s2) \<Rightarrow> Some (None, print SerialError s2)
             | (Inr tail_bytes, s2) \<Rightarrow>
                 (let frame = start_byte @ tail_bytes in
                  if length frame < 7 then receive_data_with_crc s2
                  else
                    (let msb = uint (frame ! 3);
                         lsb = uint (frame ! 4);
                         data_value = push_bit 8 msb OR lsb;
                         received_crc = struct_unpack_H (drop (length frame - 2) frame);
                         calculated_crc = calculate_crc16 (take (length frame - 2) frame)
                     in if received_crc = calculated_crc
                        then Some (Some data_value,
                               print (Extracted msb lsb data_value) (print (ValidFrame frame) s2))
                        else receive_data_with_crc
                               (print (CrcMismatch received_crc calculated_crc) s2))))
          else receive_data_with_crc s1)"

declare receive_data_with_crc.simps [code]

section \<open>The rolling buffer and the poll loop (\<open>read_current.py\<close>, main part)\<close>

text \<open>
  \<open>processed_data = deque(maxlen=window_size)\<close>. \<open>append\<close> on a bounded deque adds the
  element on the right and, when the deque has then more than \<open>maxlen\<close> elements, removes
  one from the left.
\<close>

definition deque_append :: "nat \<Rightarrow> 'a list \<Rightarrow> 'a \<Rightarrow> 'a list" where
  "deque_append maxlen d x = (let d' = d @ [x] in if length d' > maxlen then tl d' else d')"

definition window_size :: nat where
  "window_size = 500"




section \<open>The reader thread of the GUI (\<open>read_current_gui.py\<close>)\<close>

text \<open>
  The fields of \<open>CurrentSensorApp\<close> that the reader thread uses. What one iteration of
  its loop meets on the port is an observation: nothing waiting (\<open>in_waiting\<close> is 0), a
  line that \<open>float\<close> accepts (with the value and the elapsed time read from the clock), a
  line that \<open>float\<close> rejects with \<open>ValueError\<close>, or an exception raised by the port or by
  the decoding of the line.
\<close>

record app =
  is_reading :: bool
  stop_event :: bool
  port_open :: bool
  time_data :: "real list"
  current_data :: "real list"
  max_points :: nat

datatype observation = NothingWaiting | Number real real | NotNumber | ReadFailure

text \<open>\<open>__init__\<close>, for the fields above.\<close>

definition init_app :: app where
  "init_app = \<lparr>is_reading = False, stop_event = False, port_open = False,
     time_data = [], current_data = [], max_points = 500\<rparr>"

text \<open>\<open>start_reading\<close>, where the port could be opened, up to the start of the threads.\<close>

definition start_reading :: "app \<Rightarrow> app" where
  "start_reading a =
     a\<lparr>port_open := True, is_reading := True, stop_event := False,
       time_data := [], current_data := []\<rparr>"

definition stop_reading :: "app \<Rightarrow> app" where
  "stop_reading a = a\<lparr>is_reading := False, stop_event := True, port_open := False\<rparr>"

text \<open>\<open>list.pop(0)\<close> removes the first element; it is called on non-empty lists only.\<close>

definition pop0 :: "'a list \<Rightarrow> 'a list" where
  "pop0 xs = tl xs"

text \<open>The lines that store a parsed sample: two appends, then the trimming.\<close>

definition store_sample :: "real \<Rightarrow> real \<Rightarrow> app \<Rightarrow> app" where
  "store_sample current elapsed_time a =
     (let a1 = a\<lparr>time_data := time_data a @ [elapsed_time]\<rparr>;
          a2 = a1\<lparr>current_data := current_data a1 @ [current]\<rparr>
      in if length (time_data a2) > max_points a2
         then (let a3 = a2\<lparr>time_data := pop0 (time_data a2)\<rparr>
               in a3\<lparr>current_data := pop0 (current_data a3)\<rparr>)
         else a2)"

text \<open>
  The loop of \<open>read_serial_data\<close>, run on the observations of its successive iterations;
  it stops where the flags say so, after a failure (\<open>stop_reading\<close>, \<open>break\<close>), or where
  the observations end.
\<close>

fun read_serial_data :: "observation list \<Rightarrow> app \<Rightarrow> app" where
  "read_serial_data [] a = a"
| "read_serial_data (ob # obs) a =
     (if is_reading a \<and> \<not> stop_event a then
        (case ob of
           NothingWaiting \<Rightarrow> read_serial_data obs a
         | Number current elapsed_time \<Rightarrow>
             read_serial_data obs (store_sample current elapsed_time a)
         | NotNumber \<Rightarrow> read_serial_data obs a
         | ReadFailure \<Rightarrow> stop_reading a)
      else a)"

text \<open>
  The samples that the loop has recorded on these observations, as pairs of the elapsed
  time and the value, in the order of arrival (a specification device, not code).
\<close>

fun recorded :: "observation list \<Rightarrow> (real \<times> real) list" where
  "recorded [] = []"
| "recorded (Number current elapsed_time # obs) = (elapsed_time, current) # recorded obs"
| "recorded (ReadFailure # obs) = []"
| "recorded (NothingWaiting # obs) = recorded obs"
| "recorded (NotNumber # obs) = recorded obs"

section \<open>CRC16: the code computes the Modbus-RTU checksum\<close>

lemma uint_drop_bit1: "uint (drop_bit 1 (w::16 word)) = drop_bit 1 (uint w)"
  by (metis of_nat_drop_bit of_nat_unat unat_drop_bit_eq)

lemma uint_low_bit: "(uint (w::16 word) AND 1 \<noteq> 0) = bit w 0"
  by (metis (no_types, lifting) and_one_eq bit_0 even_iff_mod_2_eq_zero
      uint_0_iff uint_and unsigned_1)

lemma uint_xor_poly: "uint (w XOR (0xA001::16 word)) = uint w XOR 0xA001"
  by (simp add: uint_xor)

lemma uint_ucast_byte: "uint (ucast (b::byte) :: 16 word) = uint b"
  by (simp add: uint_up_ucast is_up)

lemma uint_and_ffff: "uint (w::16 word) AND 0xFFFF = uint w"
proof -
  have "uint w AND 0xFFFF = uint (w AND 0xFFFF)"
    by (simp add: uint_and)
  also have "w AND 0xFFFF = w"
    using mask_eq_iff [of w 16] uint_lt2p [of w] by (simp add: mask_eq_exp_minus_1)
  finally show ?thesis .
qed

lemma crc_shift_uint: "crc_shift (uint w) = uint (spec_crc16_round w)"
proof (cases "bit w 0")
  case True
  then have "uint w AND 1 \<noteq> 0"
    using uint_low_bit [of w] by blast
  then have "crc_shift (uint w) = drop_bit 1 (uint w) XOR 0xA001"
    unfolding crc_shift_def by (rule if_P)
  moreover have "spec_crc16_round w = drop_bit 1 w XOR 0xA001"
    unfolding spec_crc16_round_def using True by (rule if_P)
  ultimately show ?thesis
    by (simp only: uint_xor_poly uint_drop_bit1)
next
  case False
  then have "\<not> uint w AND 1 \<noteq> 0"
    using uint_low_bit [of w] by blast
  then have "crc_shift (uint w) = drop_bit 1 (uint w)"
    unfolding crc_shift_def by (rule if_not_P)
  moreover have "spec_crc16_round w = drop_bit 1 w"
    unfolding spec_crc16_round_def using False by (rule if_not_P)
  ultimately show ?thesis
    by (simp only: uint_drop_bit1)
qed

lemma crc_shift_funpow: "(crc_shift ^^ n) (uint w) = uint ((spec_crc16_round ^^ n) w)"
  by (induction n) (simp_all add: crc_shift_uint)

lemma crc_update_uint: "crc_update (uint w) b = uint (spec_crc16_byte w b)"
proof -
  have "uint w XOR uint b = uint (w XOR ucast b)"
    by (simp add: uint_xor uint_ucast_byte)
  then show ?thesis
    by (simp only: crc_update_def spec_crc16_byte_def crc_shift_funpow)
qed

lemma foldl_crc_update_uint:
  "foldl crc_update (uint w) data = uint (foldl spec_crc16_byte w data)"
  by (induction data arbitrary: w) (simp_all add: crc_update_uint)

lemma calculate_crc16_uint: "calculate_crc16 data = uint (spec_crc16 data)"
proof -
  have "foldl crc_update 0xFFFF data = foldl crc_update (uint (0xFFFF::16 word)) data"
    by simp
  also have "\<dots> = uint (spec_crc16 data)"
    by (simp only: foldl_crc_update_uint spec_crc16_def)
  finally show ?thesis
    by (simp only: calculate_crc16_def uint_and_ffff)
qed

lemma calculate_crc16_range: "0 \<le> calculate_crc16 data \<and> calculate_crc16 data \<le> 0xFFFF"
proof -
  have "uint (spec_crc16 data) < 2 ^ 16"
    using uint_lt2p [of "spec_crc16 data"] by simp
  then show ?thesis
    by (simp add: calculate_crc16_uint)
qed

text \<open>
  C1: for every byte sequence, \<open>calculate_crc16\<close> is the Modbus-RTU CRC16 of the
  reference definition (accumulator started at \<open>0xFFFF\<close>, each byte XORed into the low
  byte, eight rounds of shift-right with a conditional XOR with \<open>0xA001\<close>), read as an
  unsigned 16-bit number; on the empty sequence it is \<open>0xFFFF\<close>.
\<close>

theorem calculate_crc16_is_modbus:
  "calculate_crc16 data = uint (spec_crc16 data) \<and> calculate_crc16 [] = 0xFFFF"
proof
  show "calculate_crc16 data = uint (spec_crc16 data)"
    by (rule calculate_crc16_uint)
  show "calculate_crc16 [] = 0xFFFF"
    by (simp add: calculate_crc16_def)
qed

section \<open>The command frame\<close>

lemma crc_of_command_header: "calculate_crc16 [0x01, 0x03, 0x00, 0x56, 0x00, 0x01] = 0x1A64"
  by code_simp

lemma send_command_unfold:
  "send_command s =
     (case wr s of
        [] \<Rightarrow>
          (Inr (), s\<lparr>tx := tx s @ [[0x01, 0x03, 0x00, 0x56, 0x00, 0x01, 0x64, 0x1A]],
                     out := out s @ [CommandSent [0x01, 0x03, 0x00, 0x56, 0x00, 0x01, 0x64, 0x1A]]\<rparr>)
      | ok # rest \<Rightarrow>
          if ok
          then (Inr (), s\<lparr>wr := rest,
                          tx := tx s @ [[0x01, 0x03, 0x00, 0x56, 0x00, 0x01, 0x64, 0x1A]],
                          out := out s @ [CommandSent [0x01, 0x03, 0x00, 0x56, 0x00, 0x01, 0x64, 0x1A]]\<rparr>)
          else (Inl SerialException, s\<lparr>wr := rest\<rparr>))"
  by (simp add: send_command_def crc_of_command_header struct_pack_H_def ser_write_def
      print_def Let_def split: list.splits)

text \<open>
  C2: the frame that \<open>send_command\<close> writes (when the write does not fail) is exactly
  the 8 bytes \<open>01 03 00 56 00 01 64 1A\<close>: the 6 header bytes (address \<open>0x01\<close>, function
  \<open>0x03\<close>, register \<open>0x0056\<close> and count \<open>0x0001\<close>, both high byte first) followed by
  the CRC16 of those 6 bytes, low byte then high byte. A failing write writes nothing.
\<close>

theorem send_command_frame:
  "send_command s =
     (case wr s of
        [] \<Rightarrow>
          (Inr (), s\<lparr>tx := tx s @ [[0x01, 0x03, 0x00, 0x56, 0x00, 0x01, 0x64, 0x1A]],
                     out := out s @ [CommandSent [0x01, 0x03, 0x00, 0x56, 0x00, 0x01, 0x64, 0x1A]]\<rparr>)
      | ok # rest \<Rightarrow>
          if ok
          then (Inr (), s\<lparr>wr := rest,
                          tx := tx s @ [[0x01, 0x03, 0x00, 0x56, 0x00, 0x01, 0x64, 0x1A]],
                          out := out s @ [CommandSent [0x01, 0x03, 0x00, 0x56, 0x00, 0x01, 0x64, 0x1A]]\<rparr>)
          else (Inl SerialException, s\<lparr>wr := rest\<rparr>))
   \<and> [0x01, 0x03, 0x00, 0x56, 0x00, 0x01, 0x64, 0x1A] =
       [0x01, 0x03, 0x00, 0x56, 0x00, 0x01] @
       [word_of_int (calculate_crc16 [0x01, 0x03, 0x00, 0x56, 0x00, 0x01] AND 0xFF),
        word_of_int (drop_bit 8 (calculate_crc16 [0x01, 0x03, 0x00, 0x56, 0x00, 0x01])) :: byte]
   \<and> length [0x01, 0x03, 0x00, 0x56, 0x00, 0x01, 0x64, 0x1A :: byte] = 8"
proof (intro conjI)
  show "send_command s =
     (case wr s of
        [] \<Rightarrow>
          (Inr (), s\<lparr>tx := tx s @ [[0x01, 0x03, 0x00, 0x56, 0x00, 0x01, 0x64, 0x1A]],
                     out := out s @ [CommandSent [0x01, 0x03, 0x00, 0x56, 0x00, 0x01, 0x64, 0x1A]]\<rparr>)
      | ok # rest \<Rightarrow>
          if ok
          then (Inr (), s\<lparr>wr := rest,
                          tx := tx s @ [[0x01, 0x03, 0x00, 0x56, 0x00, 0x01, 0x64, 0x1A]],
                          out := out s @ [CommandSent [0x01, 0x03, 0x00, 0x56, 0x00, 0x01, 0x64, 0x1A]]\<rparr>)
          else (Inl SerialException, s\<lparr>wr := rest\<rparr>))"
    by (rule send_command_unfold)
  show "[0x01, 0x03, 0x00, 0x56, 0x00, 0x01, 0x64, 0x1A] =
       [0x01, 0x03, 0x00, 0x56, 0x00, 0x01] @
       [word_of_int (calculate_crc16 [0x01, 0x03, 0x00, 0x56, 0x00, 0x01] AND 0xFF),
        word_of_int (drop_bit 8 (calculate_crc16 [0x01, 0x03, 0x00, 0x56, 0x00, 0x01])) :: byte]"
    by (simp add: crc_of_command_header)
  show "length [0x01, 0x03, 0x00, 0x56, 0x00, 0x01, 0x64, 0x1A :: byte] = 8"
    by simp
qed

section \<open>The receiver: one turn of the loop\<close>

text \<open>What \<open>ser.read\<close> returns on the shapes of line that matter.\<close>

lemma line_take_bytes:
  "length bs = n \<Longrightarrow> line_take n (map Byte bs @ rest) = (Inr bs, rest)"
  by (induction bs arbitrary: n) auto

lemma line_take_quiet:
  "length bs < n \<Longrightarrow> line_take n (map Byte bs @ Quiet # rest) = (Inr bs, rest)"
proof (induction bs arbitrary: n)
  case Nil
  then show ?case by (cases n) simp_all
next
  case (Cons b bs)
  then show ?case by (cases n) simp_all
qed

lemma line_take_end:
  "length bs < n \<Longrightarrow> line_take n (map Byte bs) = (Inr bs, [])"
proof (induction bs arbitrary: n)
  case Nil
  then show ?case by (cases n) simp_all
next
  case (Cons b bs)
  then show ?case by (cases n) simp_all
qed


lemma line_take_Inr:
  "line_take n evs = (Inr bs, rest) \<Longrightarrow>
     length bs \<le> n \<and> (\<exists>gap. evs = map Byte bs @ gap @ rest \<and> (length bs = n \<longrightarrow> gap = []))"
proof (induction n evs arbitrary: bs rest rule: line_take.induct)
  case (5 n b evs)
  then show ?case
    by (auto split: prod.splits sum.splits)
qed auto


lemma receive_silent_raw:
  assumes r: "receive_data_with_crc s = Some y"
  shows "rx s \<noteq> []"
proof (rule receive_data_with_crc.raw_induct [where P = "\<lambda>s y. rx s \<noteq> []", OF _ r], goal_cases)
  case (1 f s y)
  show ?case
  proof
    assume e: "rx s = []"
    then have "ser_read 1 s = (Inr [], s\<lparr>rx := []\<rparr>)"
      by (simp add: ser_read_def)
    with 1(2) have "f (s\<lparr>rx := []\<rparr>) = Some y"
      by simp
    then have "rx (s\<lparr>rx := []\<rparr>) \<noteq> []"
      by (rule 1(1))
    then show False by simp
  qed
qed

lemma receive_silent: "rx s = [] \<Longrightarrow> receive_data_with_crc s = None"
  using receive_silent_raw [of s] by (cases "receive_data_with_crc s") auto

lemma receive_quiet:
  "rx s = Quiet # rest \<Longrightarrow> receive_data_with_crc s = receive_data_with_crc (s\<lparr>rx := rest\<rparr>)"
  by (subst receive_data_with_crc.simps) (simp add: ser_read_def)

lemma receive_fault:
  "rx s = Fault # rest \<Longrightarrow>
     receive_data_with_crc s = Some (None, print SerialError (s\<lparr>rx := rest\<rparr>))"
  by (subst receive_data_with_crc.simps) (simp add: ser_read_def)

lemma receive_other_byte:
  "rx s = Byte b # rest \<Longrightarrow> b \<noteq> 0x01 \<Longrightarrow>
     receive_data_with_crc s = receive_data_with_crc (s\<lparr>rx := rest\<rparr>)"
  by (subst receive_data_with_crc.simps) (simp add: ser_read_def)

lemma receive_start_byte:
  "rx s = Byte 0x01 # evs \<Longrightarrow>
     receive_data_with_crc s =
       (case line_take 6 evs of
          (Inl e, rest) \<Rightarrow> Some (None, print SerialError (s\<lparr>rx := rest\<rparr>))
        | (Inr tail_bytes, rest) \<Rightarrow>
            if length tail_bytes < 6 then receive_data_with_crc (s\<lparr>rx := rest\<rparr>)
            else if struct_unpack_H (drop (length tail_bytes - 1) (0x01 # tail_bytes)) =
                    calculate_crc16 (take (length tail_bytes - 1) (0x01 # tail_bytes))
            then Some (Some (push_bit 8 (uint ((0x01 # tail_bytes) ! 3)) OR uint ((0x01 # tail_bytes) ! 4)),
                   print (Extracted (uint ((0x01 # tail_bytes) ! 3)) (uint ((0x01 # tail_bytes) ! 4))
                            (push_bit 8 (uint ((0x01 # tail_bytes) ! 3)) OR uint ((0x01 # tail_bytes) ! 4)))
                     (print (ValidFrame (0x01 # tail_bytes)) (s\<lparr>rx := rest\<rparr>)))
            else receive_data_with_crc
                   (print (CrcMismatch (struct_unpack_H (drop (length tail_bytes - 1) (0x01 # tail_bytes)))
                             (calculate_crc16 (take (length tail_bytes - 1) (0x01 # tail_bytes))))
                      (s\<lparr>rx := rest\<rparr>)))"
  by (subst receive_data_with_crc.simps)
     (auto simp add: ser_read_def Let_def split: prod.splits sum.splits)

text \<open>A complete frame at the head of the line: accepted or rejected by its CRC.\<close>

lemma receive_full_frame:
  assumes len: "length frame = 7" and start: "frame ! 0 = 0x01"
    and line: "rx s = map Byte frame @ rest"
  shows "receive_data_with_crc s =
     (if struct_unpack_H (drop 5 frame) = calculate_crc16 (take 5 frame)
      then Some (Some (push_bit 8 (uint (frame ! 3)) OR uint (frame ! 4)),
             s\<lparr>rx := rest,
               out := out s @ [ValidFrame frame,
                 Extracted (uint (frame ! 3)) (uint (frame ! 4))
                   (push_bit 8 (uint (frame ! 3)) OR uint (frame ! 4))]\<rparr>)
      else receive_data_with_crc
             (s\<lparr>rx := rest,
                out := out s @ [CrcMismatch (struct_unpack_H (drop 5 frame))
                                  (calculate_crc16 (take 5 frame))]\<rparr>))"
proof -
  from len start obtain tail_bytes where f: "frame = 0x01 # tail_bytes" and t: "length tail_bytes = 6"
    by (cases frame) auto
  have l: "rx s = Byte 0x01 # (map Byte tail_bytes @ rest)"
    using line f by simp
  have k: "line_take 6 (map Byte tail_bytes @ rest) = (Inr tail_bytes, rest)"
    using t by (rule line_take_bytes)
  show ?thesis
    unfolding receive_start_byte [OF l] k f
    using t by (simp add: print_def)
qed

lemma crc_of_response: "calculate_crc16 [0x01, 0x03, 0x02, 0x00, 0xC8] = 0xD2B9"
  by code_simp

text \<open>
  Whatever value the call returns was decoded from seven consecutive bytes of the line
  that begin with \<open>0x01\<close> and carry their own CRC16; they are the last bytes the call
  has consumed, and the two lines printed last show them.
\<close>

lemma receive_value_sound:
  "receive_data_with_crc s = Some (Some v, s') \<Longrightarrow>
     \<exists>frame skipped printed.
        rx s = skipped @ map Byte frame @ rx s' \<and>
        length frame = 7 \<and> frame ! 0 = 0x01 \<and>
        struct_unpack_H (drop 5 frame) = calculate_crc16 (take 5 frame) \<and>
        v = push_bit 8 (uint (frame ! 3)) OR uint (frame ! 4) \<and>
        out s' = out s @ printed @ [ValidFrame frame,
          Extracted (uint (frame ! 3)) (uint (frame ! 4)) v]"
proof (induction "length (rx s)" arbitrary: s rule: less_induct)
  case less
  let ?Q = "\<lambda>s. \<exists>frame skipped printed.
        rx s = skipped @ map Byte frame @ rx s' \<and>
        length frame = 7 \<and> frame ! 0 = 0x01 \<and>
        struct_unpack_H (drop 5 frame) = calculate_crc16 (take 5 frame) \<and>
        v = push_bit 8 (uint (frame ! 3)) OR uint (frame ! 4) \<and>
        out s' = out s @ printed @ [ValidFrame frame,
          Extracted (uint (frame ! 3)) (uint (frame ! 4)) v]"
  have later: "?Q s" if st: "receive_data_with_crc t = Some (Some v, s')"
    and line: "rx s = used @ rx t" and u: "used \<noteq> []" and o: "out t = out s @ pr" for t used pr
  proof -
    have "length (rx t) < length (rx s)"
      using line u by simp
    from less.hyps [OF this st] obtain frame skipped printed where
      h: "rx t = skipped @ map Byte frame @ rx s'" "length frame = 7" "frame ! 0 = 0x01"
      "struct_unpack_H (drop 5 frame) = calculate_crc16 (take 5 frame)"
      "v = push_bit 8 (uint (frame ! 3)) OR uint (frame ! 4)"
      "out s' = out t @ printed @ [ValidFrame frame,
          Extracted (uint (frame ! 3)) (uint (frame ! 4)) v]"
      by blast
    have "rx s = (used @ skipped) @ map Byte frame @ rx s'"
      using line h(1) by simp
    moreover have "out s' = out s @ (pr @ printed) @ [ValidFrame frame,
          Extracted (uint (frame ! 3)) (uint (frame ! 4)) v]"
      using o h(6) by simp
    ultimately show ?thesis
      using h(2-5) by blast
  qed
  show ?case
  proof (cases "rx s")
    case Nil
    then show ?thesis
      using less.prems receive_silent [of s] by simp
  next
    case (Cons ev evs)
    show ?thesis
    proof (cases ev)
      case Quiet
      then have "receive_data_with_crc (s\<lparr>rx := evs\<rparr>) = Some (Some v, s')"
        using less.prems receive_quiet [of s evs] Cons by simp
      then show ?thesis
        by (rule later [of _ "[ev]" "[]"]) (simp_all add: Cons)
    next
      case Fault
      then show ?thesis
        using less.prems receive_fault [of s evs] Cons by simp
    next
      case (Byte b)
      show ?thesis
      proof (cases "b = 0x01")
        case False
        then have "receive_data_with_crc (s\<lparr>rx := evs\<rparr>) = Some (Some v, s')"
          using less.prems receive_other_byte [of s b evs] Cons Byte by simp
        then show ?thesis
          by (rule later [of _ "[ev]" "[]"]) (simp_all add: Cons)
      next
        case True
        then have line: "rx s = Byte 0x01 # evs"
          using Cons Byte by simp
        obtain r rest where lt: "line_take 6 evs = (r, rest)"
          by (cases "line_take 6 evs")
        show ?thesis
        proof (cases r)
          case (Inl e)
          then show ?thesis
            using less.prems receive_start_byte [OF line] lt by simp
        next
          case (Inr tail_bytes)
          from line_take_Inr [OF lt [unfolded Inr]] obtain gap where
            g: "length tail_bytes \<le> 6" "evs = map Byte tail_bytes @ gap @ rest"
            "length tail_bytes = 6 \<longrightarrow> gap = []"
            by blast
          show ?thesis
          proof (cases "length tail_bytes < 6")
            case True
            then have "receive_data_with_crc (s\<lparr>rx := rest\<rparr>) = Some (Some v, s')"
              using less.prems receive_start_byte [OF line] lt Inr by simp
            then show ?thesis
              by (rule later [of _ "Byte 0x01 # map Byte tail_bytes @ gap" "[]"])
                (simp_all add: line g(2))
          next
            case False
            then have six: "length tail_bytes = 6" and nogap: "gap = []"
              using g by auto
            let ?frame = "0x01 # tail_bytes"
            show ?thesis
            proof (cases "struct_unpack_H (drop 5 ?frame) = calculate_crc16 (take 5 ?frame)")
              case True
              then have "receive_data_with_crc s =
                  Some (Some (push_bit 8 (uint (?frame ! 3)) OR uint (?frame ! 4)),
                   print (Extracted (uint (?frame ! 3)) (uint (?frame ! 4))
                            (push_bit 8 (uint (?frame ! 3)) OR uint (?frame ! 4)))
                     (print (ValidFrame ?frame) (s\<lparr>rx := rest\<rparr>)))"
                using receive_start_byte [OF line] lt Inr six by simp
              with less.prems have v: "v = push_bit 8 (uint (?frame ! 3)) OR uint (?frame ! 4)"
                and s': "s' = print (Extracted (uint (?frame ! 3)) (uint (?frame ! 4)) v)
                     (print (ValidFrame ?frame) (s\<lparr>rx := rest\<rparr>))"
                by auto
              have "rx s = [] @ map Byte ?frame @ rx s'"
                using line g(2) nogap s' by (simp add: print_def)
              moreover have "out s' = out s @ [] @ [ValidFrame ?frame,
                  Extracted (uint (?frame ! 3)) (uint (?frame ! 4)) v]"
                using s' by (simp add: print_def)
              moreover have "length ?frame = 7" "?frame ! 0 = 0x01"
                using six by simp_all
              ultimately show ?thesis
                using True v by blast
            next
              case False
              let ?t = "print (CrcMismatch (struct_unpack_H (drop 5 ?frame))
                             (calculate_crc16 (take 5 ?frame))) (s\<lparr>rx := rest\<rparr>)"
              from False have "receive_data_with_crc ?t = Some (Some v, s')"
                using less.prems receive_start_byte [OF line] lt Inr six by simp
              then show ?thesis
                by (rule later [of _ "Byte 0x01 # map Byte tail_bytes"
                      "[CrcMismatch (struct_unpack_H (drop 5 ?frame))
                             (calculate_crc16 (take 5 ?frame))]"])
                  (simp_all add: line g(2) nogap print_def)
            qed
          qed
        qed
      qed
    qed
  qed
qed

text \<open>
  C3: for every 7-byte frame that begins with \<open>0x01\<close> and whose last two bytes, read
  low byte first, are the CRC16 of its first 5 bytes, the receiver that meets this frame
  on the line returns the value \<open>(frame[3] << 8) | frame[4]\<close> (and has consumed exactly
  the frame and printed the two lines about it); the frame \<open>01 03 02 00 C8\<close> with its
  CRC \<open>B9 D2\<close> gives 200.
\<close>

theorem valid_frame_decoded:
  "(length frame = 7 \<and> frame ! 0 = 0x01 \<and>
    struct_unpack_H (drop 5 frame) = calculate_crc16 (take 5 frame) \<and>
    rx s = map Byte frame @ rest \<longrightarrow>
      receive_data_with_crc s =
        Some (Some (push_bit 8 (uint (frame ! 3)) OR uint (frame ! 4)),
          s\<lparr>rx := rest,
            out := out s @ [ValidFrame frame,
              Extracted (uint (frame ! 3)) (uint (frame ! 4))
                (push_bit 8 (uint (frame ! 3)) OR uint (frame ! 4))]\<rparr>))
   \<and> calculate_crc16 [0x01, 0x03, 0x02, 0x00, 0xC8] = 0xD2B9
   \<and> (rx t = map Byte [0x01, 0x03, 0x02, 0x00, 0xC8, 0xB9, 0xD2] @ rest' \<longrightarrow>
        receive_data_with_crc t =
          Some (Some 200,
            t\<lparr>rx := rest',
              out := out t @ [ValidFrame [0x01, 0x03, 0x02, 0x00, 0xC8, 0xB9, 0xD2],
                Extracted 0 200 200]\<rparr>))"
proof (intro conjI impI)
  assume "length frame = 7 \<and> frame ! 0 = 0x01 \<and>
    struct_unpack_H (drop 5 frame) = calculate_crc16 (take 5 frame) \<and>
    rx s = map Byte frame @ rest"
  then have a: "length frame = 7" and b: "frame ! 0 = 0x01"
    and c: "struct_unpack_H (drop 5 frame) = calculate_crc16 (take 5 frame)"
    and d: "rx s = map Byte frame @ rest"
    by blast+
  show "receive_data_with_crc s =
        Some (Some (push_bit 8 (uint (frame ! 3)) OR uint (frame ! 4)),
          s\<lparr>rx := rest,
            out := out s @ [ValidFrame frame,
              Extracted (uint (frame ! 3)) (uint (frame ! 4))
                (push_bit 8 (uint (frame ! 3)) OR uint (frame ! 4))]\<rparr>)"
    by (subst receive_full_frame [OF a b d]) (simp add: c)
next
  show "calculate_crc16 [0x01, 0x03, 0x02, 0x00, 0xC8] = 0xD2B9"
    by (rule crc_of_response)
next
  assume l: "rx t = map Byte [0x01, 0x03, 0x02, 0x00, 0xC8, 0xB9, 0xD2] @ rest'"
  show "receive_data_with_crc t =
          Some (Some 200,
            t\<lparr>rx := rest',
              out := out t @ [ValidFrame [0x01, 0x03, 0x02, 0x00, 0xC8, 0xB9, 0xD2],
                Extracted 0 200 200]\<rparr>)"
    by (subst receive_full_frame [OF _ _ l]) (simp_all add: crc_of_response struct_unpack_H_def)
qed

theorem valid_frame_decoded_witness:
  "length [0x01, 0x03, 0x02, 0x12, 0x34, 0xB5, 0x33 :: byte] = 7 \<and>
   struct_unpack_H (drop 5 [0x01, 0x03, 0x02, 0x12, 0x34, 0xB5, 0x33]) =
     calculate_crc16 (take 5 [0x01, 0x03, 0x02, 0x12, 0x34, 0xB5, 0x33]) \<and>
   receive_data_with_crc
     \<lparr>rx = map Byte [0x01, 0x03, 0x02, 0x12, 0x34, 0xB5, 0x33] @ [Quiet],
      wr = [], tx = [], out = []\<rparr> =
   Some (Some 0x1234,
     \<lparr>rx = [Quiet], wr = [], tx = [],
      out = [ValidFrame [0x01, 0x03, 0x02, 0x12, 0x34, 0xB5, 0x33], Extracted 0x12 0x34 0x1234]\<rparr>)"
proof -
  have c: "calculate_crc16 [0x01, 0x03, 0x02, 0x12, 0x34] = 0x33B5"
    by code_simp
  have u: "struct_unpack_H (drop 5 [0x01, 0x03, 0x02, 0x12, 0x34, 0xB5, 0x33]) =
     calculate_crc16 (take 5 [0x01, 0x03, 0x02, 0x12, 0x34, 0xB5, 0x33])"
    by (simp add: c struct_unpack_H_def)
  show ?thesis
    using u valid_frame_decoded [of "[0x01, 0x03, 0x02, 0x12, 0x34, 0xB5, 0x33]"
        "\<lparr>rx = map Byte [0x01, 0x03, 0x02, 0x12, 0x34, 0xB5, 0x33] @ [Quiet],
          wr = [], tx = [], out = []\<rparr>" "[Quiet]"]
    by simp
qed

section \<open>The rolling buffer\<close>

text \<open>An append to a bounded deque keeps the last \<open>maxlen\<close> elements.\<close>

lemma drop_within_append: "k \<le> length xs \<Longrightarrow> drop k xs @ ws = drop k (xs @ ws)"
  by simp

lemma deque_append_drop:
  assumes "length d \<le> N"
  shows "deque_append N d x = drop (length d + 1 - N) (d @ [x])"
proof (cases "length d = N")
  case True
  then have k: "length d + 1 - N = Suc 0"
    by simp
  have "deque_append N d x = tl (d @ [x])"
    using True by (simp add: deque_append_def)
  also have "\<dots> = drop (Suc 0) (d @ [x])"
    by (simp only: drop_Suc drop_0)
  finally show ?thesis
    by (simp only: k)
next
  case False
  with assms have "length d < N"
    by simp
  then show ?thesis
    by (simp add: deque_append_def)
qed

lemma window_step:
  assumes "length d \<le> N"
  shows "drop (length (drop (length d + 1 - N) (d @ [x])) + n - N)
           (drop (length d + 1 - N) (d @ [x]) @ ws) =
         drop (length d + Suc n - N) (d @ x # ws)"
proof -
  define k where "k = length d + 1 - N"
  define xs where "xs = d @ [x]"
  have k: "k \<le> length xs"
    by (simp add: k_def xs_def)
  have "drop k xs @ ws = drop k (xs @ ws)"
    using k by (rule drop_within_append)
  then have "drop (length (drop k xs) + n - N) (drop k xs @ ws) =
      drop (length (drop k xs) + n - N + k) (xs @ ws)"
    by (simp only: drop_drop)
  moreover have "length (drop k xs) + n - N + k = length d + Suc n - N"
    using assms by (simp add: k_def xs_def)
  moreover have "xs @ ws = d @ x # ws"
    by (simp add: xs_def)
  ultimately show ?thesis
    unfolding k_def xs_def by simp
qed

lemma foldl_deque_append:
  "length d \<le> N \<Longrightarrow>
     foldl (deque_append N) d vs = drop (length d + length vs - N) (d @ vs)"
proof (induction vs arbitrary: d)
  case Nil
  then show ?case by simp
next
  case (Cons v vs)
  let ?d = "drop (length d + 1 - N) (d @ [v])"
  have l: "length ?d \<le> N"
    using Cons.prems by simp
  have "foldl (deque_append N) (d) (v # vs) = foldl (deque_append N) ?d vs"
    using Cons.prems by (simp add: deque_append_drop)
  also have "\<dots> = drop (length ?d + length vs - N) (?d @ vs)"
    using l by (rule Cons.IH)
  also have "\<dots> = drop (length d + Suc (length vs) - N) (d @ v # vs)"
    using Cons.prems by (rule window_step)
  finally show ?case by simp
qed

lemma length_foldl_deque_append:
  "length d \<le> N \<Longrightarrow> length (foldl (deque_append N) d vs) \<le> N"
  by (simp add: foldl_deque_append)

text \<open>The GUI keeps its two lists by the same rule, as long as they have one length.\<close>

lemma store_sample_fields:
  "max_points (store_sample c t a) = max_points a"
  "is_reading (store_sample c t a) = is_reading a"
  "stop_event (store_sample c t a) = stop_event a"
  by (simp_all add: store_sample_def Let_def)

lemma store_sample_lists:
  assumes "length (time_data a) = length (current_data a)"
  shows "time_data (store_sample c t a) = deque_append (max_points a) (time_data a) t"
    and "current_data (store_sample c t a) = deque_append (max_points a) (current_data a) c"
  using assms by (simp_all add: store_sample_def deque_append_def pop0_def Let_def)

text \<open>
  C5: for a rolling buffer of capacity \<open>N\<close> (the deque \<open>processed_data\<close>, with
  \<open>N = window_size = 500\<close>) that holds at most \<open>N\<close> samples, \<open>N + k\<close> pushes with
  \<open>k > 0\<close> leave exactly \<open>N\<close> samples, the last \<open>N\<close> pushed, in the order pushed; the
  length never exceeds \<open>N\<close> after any number of pushes; a push at capacity evicts the
  oldest element and a push below capacity evicts nothing. The two lists of the GUI
  (capacity \<open>max_points = 500\<close>) follow the same rule.
\<close>

theorem rolling_buffer_fifo:
  "(length d \<le> N \<and> length vs = N + k \<and> 0 < k \<longrightarrow>
      foldl (deque_append N) d vs = drop k vs \<and>
      length (foldl (deque_append N) d vs) = N)
   \<and> (length d \<le> N \<longrightarrow> length (foldl (deque_append N) d vs) \<le> N)
   \<and> (length (y # ys) = N \<longrightarrow> deque_append N (y # ys) x = ys @ [x])
   \<and> (length d < N \<longrightarrow> deque_append N d x = d @ [x])
   \<and> (length (time_data a) = length (current_data a) \<longrightarrow>
        time_data (store_sample c t a) = deque_append (max_points a) (time_data a) t \<and>
        current_data (store_sample c t a) = deque_append (max_points a) (current_data a) c)
   \<and> window_size = 500 \<and> max_points init_app = 500"
proof (intro conjI impI)
  assume h: "length d \<le> N \<and> length vs = N + k \<and> 0 < k"
  then have "foldl (deque_append N) d vs = drop (length d + length vs - N) (d @ vs)"
    by (simp add: foldl_deque_append)
  with h show "foldl (deque_append N) d vs = drop k vs"
    by simp
  with h show "length (foldl (deque_append N) d vs) = N"
    by simp
next
  assume "length d \<le> N"
  then show "length (foldl (deque_append N) d vs) \<le> N"
    by (rule length_foldl_deque_append)
next
  assume "length (y # ys) = N"
  then show "deque_append N (y # ys) x = ys @ [x]"
    by (auto simp add: deque_append_def)
next
  assume "length d < N"
  then show "deque_append N d x = d @ [x]"
    by (simp add: deque_append_def)
next
  assume e: "length (time_data a) = length (current_data a)"
  then show "time_data (store_sample c t a) = deque_append (max_points a) (time_data a) t"
    by (rule store_sample_lists)
  from e show "current_data (store_sample c t a) = deque_append (max_points a) (current_data a) c"
    by (rule store_sample_lists)
next
  show "window_size = 500"
    by (rule window_size_def)
next
  show "max_points init_app = 500"
    by (simp add: init_app_def)
qed

theorem rolling_buffer_fifo_witness:
  "length ([] :: nat list) \<le> 2 \<and> length [10, 20, 30 :: nat] = 2 + 1 \<and>
   foldl (deque_append 2) [] [10, 20, 30 :: nat] = [20, 30] \<and>
   deque_append 2 [10, 20] (30 :: nat) = [20, 30] \<and>
   deque_append 2 [10] (20 :: nat) = [10, 20]"
  using rolling_buffer_fifo [of "[]" 2 "[10, 20, 30 :: nat]" 1 10 "[20]" 30 init_app]
    rolling_buffer_fifo [of "[10 :: nat]" 2 "[]" 0 10 "[20]" 20 init_app]
  by simp

section \<open>The reader thread of the GUI keeps its two lists paired\<close>

lemma zip_deque_append:
  assumes "length ts = length cs"
  shows "zip (deque_append M ts t) (deque_append M cs c) = deque_append M (zip ts cs) (t, c)"
proof (cases ts)
  case Nil
  with assms show ?thesis by (simp add: deque_append_def Let_def)
next
  case (Cons t0 ts')
  with assms obtain c0 cs' where "cs = c0 # cs'" and "length ts' = length cs'"
    by (cases cs) auto
  with Cons show ?thesis by (simp add: deque_append_def Let_def)
qed

lemma length_deque_append:
  "length d \<le> M \<Longrightarrow> length (deque_append M d x) \<le> M"
  by (auto simp add: deque_append_def Let_def)

lemma length_deque_append_eq:
  "length ts = length cs \<Longrightarrow> length (deque_append M ts t) = length (deque_append M cs c)"
  by (simp add: deque_append_def Let_def)

lemma read_serial_data_window:
  assumes "length (time_data a) = length (current_data a)"
    and "length (time_data a) \<le> max_points a"
    and "is_reading a" and "\<not> stop_event a"
  shows "length (time_data (read_serial_data obs a)) = length (current_data (read_serial_data obs a))
    \<and> length (time_data (read_serial_data obs a)) \<le> max_points a
    \<and> max_points (read_serial_data obs a) = max_points a
    \<and> zip (time_data (read_serial_data obs a)) (current_data (read_serial_data obs a)) =
        drop (length (time_data a) + length (recorded obs) - max_points a)
          (zip (time_data a) (current_data a) @ recorded obs)"
  using assms
proof (induction obs arbitrary: a)
  case Nil
  then show ?case by simp
next
  case (Cons ob obs)
  show ?case
  proof (cases ob)
    case NothingWaiting
    then have r: "read_serial_data (ob # obs) a = read_serial_data obs a"
      "recorded (ob # obs) = recorded obs"
      using Cons.prems(3,4) by simp_all
    show ?thesis
      unfolding r by (rule Cons.IH [OF Cons.prems])
  next
    case NotNumber
    then have r: "read_serial_data (ob # obs) a = read_serial_data obs a"
      "recorded (ob # obs) = recorded obs"
      using Cons.prems(3,4) by simp_all
    show ?thesis
      unfolding r by (rule Cons.IH [OF Cons.prems])
  next
    case ReadFailure
    then show ?thesis using Cons.prems by (simp add: stop_reading_def)
  next
    case (Number c t)
    let ?a = "store_sample c t a"
    let ?M = "max_points a"
    let ?z = "zip (time_data a) (current_data a)"
    have lz: "length ?z \<le> ?M" "length ?z = length (time_data a)"
      using Cons.prems by simp_all
    have t: "time_data ?a = deque_append ?M (time_data a) t"
      and c: "current_data ?a = deque_append ?M (current_data a) c"
      using Cons.prems(1) by (rule store_sample_lists)+
    have e: "length (time_data ?a) = length (current_data ?a)"
      unfolding t c using Cons.prems(1) by (rule length_deque_append_eq)
    have b: "length (time_data ?a) \<le> max_points ?a"
      unfolding t store_sample_fields using Cons.prems(2) by (rule length_deque_append)
    have z: "zip (time_data ?a) (current_data ?a) = drop (length ?z + 1 - ?M) (?z @ [(t, c)])"
      unfolding t c using Cons.prems(1) lz(1)
      by (simp only: zip_deque_append deque_append_drop)
    have lt: "length (time_data ?a) = length (drop (length ?z + 1 - ?M) (?z @ [(t, c)]))"
      using e z by (metis length_zip min.idem)
    have ih: "length (time_data (read_serial_data obs ?a)) = length (current_data (read_serial_data obs ?a))
    \<and> length (time_data (read_serial_data obs ?a)) \<le> max_points ?a
    \<and> max_points (read_serial_data obs ?a) = max_points ?a
    \<and> zip (time_data (read_serial_data obs ?a)) (current_data (read_serial_data obs ?a)) =
        drop (length (time_data ?a) + length (recorded obs) - max_points ?a)
          (zip (time_data ?a) (current_data ?a) @ recorded obs)"
      using e b Cons.prems(3,4) by (intro Cons.IH) (simp_all add: store_sample_fields)
    have w: "drop (length (time_data ?a) + length (recorded obs) - ?M)
          (zip (time_data ?a) (current_data ?a) @ recorded obs) =
        drop (length ?z + Suc (length (recorded obs)) - ?M) (?z @ (t, c) # recorded obs)"
      unfolding lt z using lz(1) by (rule window_step)
    have r: "read_serial_data (ob # obs) a = read_serial_data obs ?a"
      using Number Cons.prems(3,4) by simp
    show ?thesis
      unfolding r using ih w Number lz(2) by (simp add: store_sample_fields)
  qed
qed

text \<open>
  C10: after every iteration of the reader loop (that is, after any number \<open>n\<close> of the
  iterations that the observations \<open>obs\<close> drive) started by \<open>start_reading\<close>,
  \<open>time_data\<close> and \<open>current_data\<close> have the same length, at most \<open>max_points\<close> (500
  as \<open>__init__\<close> sets it), and the two lists, paired position by position, are the last
  \<open>max_points\<close> (elapsed time, value) pairs recorded, in their order of arrival.
\<close>

theorem reader_lists_paired:
  "(max_points a = M \<longrightarrow>
      (let a' = read_serial_data (take n obs) (start_reading a) in
         length (time_data a') = length (current_data a') \<and>
         length (time_data a') \<le> M \<and> length (current_data a') \<le> M \<and>
         zip (time_data a') (current_data a') =
           drop (length (recorded (take n obs)) - M) (recorded (take n obs))))
   \<and> max_points init_app = 500"
proof (intro conjI impI)
  assume m: "max_points a = M"
  let ?s = "start_reading a"
  have "length (time_data ?s) = length (current_data ?s)" "length (time_data ?s) \<le> max_points ?s"
    "is_reading ?s" "\<not> stop_event ?s"
    by (simp_all add: start_reading_def)
  from read_serial_data_window [OF this, of "take n obs"] m
  show "let a' = read_serial_data (take n obs) (start_reading a) in
         length (time_data a') = length (current_data a') \<and>
         length (time_data a') \<le> M \<and> length (current_data a') \<le> M \<and>
         zip (time_data a') (current_data a') =
           drop (length (recorded (take n obs)) - M) (recorded (take n obs))"
    by (simp add: start_reading_def Let_def)
next
  show "max_points init_app = 500"
    by (simp add: init_app_def)
qed

theorem reader_lists_paired_witness:
  "max_points (init_app\<lparr>max_points := 2\<rparr>) = 2 \<and>
   time_data (read_serial_data (take 5 [Number 1 10, NotNumber, Number 2 20, NothingWaiting, Number 3 30])
      (start_reading (init_app\<lparr>max_points := 2\<rparr>))) = [20, 30] \<and>
   current_data (read_serial_data (take 5 [Number 1 10, NotNumber, Number 2 20, NothingWaiting, Number 3 30])
      (start_reading (init_app\<lparr>max_points := 2\<rparr>))) = [2, 3] \<and>
   zip (time_data (read_serial_data (take 5 [Number 1 10, NotNumber, Number 2 20, NothingWaiting, Number 3 30])
      (start_reading (init_app\<lparr>max_points := 2\<rparr>))))
       (current_data (read_serial_data (take 5 [Number 1 10, NotNumber, Number 2 20, NothingWaiting, Number 3 30])
      (start_reading (init_app\<lparr>max_points := 2\<rparr>)))) = [(20, 2), (30, 3)]"
  using reader_lists_paired [of "init_app\<lparr>max_points := 2\<rparr>" 2 5
      "[Number 1 10, NotNumber, Number 2 20, NothingWaiting, Number 3 30]"]
  by (simp add: init_app_def start_reading_def store_sample_def pop0_def Let_def)

section \<open>The receiver against the specification's typed errors\<close>

text \<open>
  On a complete frame that begins with the address, the specification's validation
  decides by the CRC alone, and by the same comparison as the code.
\<close>

lemma struct_unpack_H_pair: "struct_unpack_H [lo, hi] = uint lo + 256 * uint hi"
proof -
  have "uint lo + push_bit 8 (uint hi) = uint lo OR push_bit 8 (uint hi)"
    by (rule disjunctive_add) (auto simp add: bit_push_bit_iff bit_uint_iff dest: bit_imp_le_length)
  then show ?thesis
    by (simp add: struct_unpack_H_def push_bit_eq_mult)
qed

lemma seven_bytes:
  assumes "length frame = 7" and "frame ! 0 = (0x01 :: byte)"
  shows "\<exists>b1 b2 b3 b4 lo hi. frame = [0x01, b1, b2, b3, b4, lo, hi]"
proof -
  have "length frame = Suc (Suc (Suc (Suc (Suc (Suc (Suc 0))))))"
    using assms(1) by simp
  then obtain b0 b1 b2 b3 b4 lo hi where "frame = [b0, b1, b2, b3, b4, lo, hi]"
    by (auto simp add: length_Suc_conv)
  with assms(2) show ?thesis
    by simp
qed

lemma spec_validate_complete_frame:
  assumes "length frame = 7" and "frame ! 0 = 0x01"
  shows "spec_validate_frame 7 0x01 frame =
     (if struct_unpack_H (drop 5 frame) = calculate_crc16 (take 5 frame)
      then Inr (push_bit 8 (uint (frame ! 3)) OR uint (frame ! 4))
      else Inl ChecksumMismatch)"
proof -
  from seven_bytes [OF assms] obtain b1 b2 b3 b4 lo hi
    where f: "frame = [0x01, b1, b2, b3, b4, lo, hi]"
    by blast
  show ?thesis
    unfolding f spec_validate_frame_def
    by (auto simp add: struct_unpack_H_pair calculate_crc16_uint spec_le_value_def)
qed







lemma receive_never_without_start:
  "\<forall>ev \<in> set (rx s). ev \<noteq> Fault \<and> ev \<noteq> Byte 0x01 \<Longrightarrow> receive_data_with_crc s = None"
proof (induction "rx s" arbitrary: s)
  case Nil
  then show ?case
    by (simp add: receive_silent)
next
  case (Cons ev evs)
  have ih: "receive_data_with_crc (s\<lparr>rx := evs\<rparr>) = None"
    using Cons.prems Cons.hyps(2) [symmetric] by (intro Cons.hyps(1)) simp_all
  show ?case
  proof (cases ev)
    case (Byte b)
    then have "b \<noteq> 0x01"
      using Cons.prems Cons.hyps(2) [symmetric] by auto
    then show ?thesis
      using receive_other_byte [of s b evs] Byte Cons.hyps(2) ih by simp
  next
    case Quiet
    then show ?thesis
      using receive_quiet [of s evs] Cons.hyps(2) ih by simp
  next
    case Fault
    then show ?thesis
      using Cons.prems Cons.hyps(2) [symmetric] by auto
  qed
qed

lemma receive_short_frame:
  assumes "length bs < 6"
  shows "rx s = Byte 0x01 # map Byte bs @ Quiet # rest \<Longrightarrow>
           receive_data_with_crc s = receive_data_with_crc (s\<lparr>rx := rest\<rparr>)"
    and "rx s = Byte 0x01 # map Byte bs \<Longrightarrow> receive_data_with_crc s = None"
proof -
  assume l: "rx s = Byte 0x01 # map Byte bs @ Quiet # rest"
  show "receive_data_with_crc s = receive_data_with_crc (s\<lparr>rx := rest\<rparr>)"
    unfolding receive_start_byte [OF l] line_take_quiet [OF assms]
    using assms by simp
next
  assume l: "rx s = Byte 0x01 # map Byte bs"
  have "receive_data_with_crc s = receive_data_with_crc (s\<lparr>rx := []\<rparr>)"
    unfolding receive_start_byte [OF l] line_take_end [OF assms]
    using assms by simp
  then show "receive_data_with_crc s = None"
    by (simp add: receive_silent)
qed

text \<open>A frame that fails the CRC check, with nothing behind it: the call never returns.\<close>

lemma receive_bad_frame_alone:
  assumes "length frame = 7" and "frame ! 0 = 0x01"
    and "struct_unpack_H (drop 5 frame) \<noteq> calculate_crc16 (take 5 frame)"
    and "rx t = map Byte frame"
  shows "receive_data_with_crc t = None"
proof -
  have l: "rx t = map Byte frame @ []"
    using assms(4) by simp
  show ?thesis
    by (subst receive_full_frame [OF assms(1,2) l]) (simp add: assms(3) receive_silent)
qed

text \<open>
  C4, as the specification states it, fails on the code in its last clause: the failure of
  the CRC check is not reported to the caller as \<open>ChecksumMismatch\<close>. The
  specification's validation fails so on the frame for 200 with its CRC bytes swapped;
  the receiver that meets this frame and nothing else never returns, and when a port
  failure follows the frame it returns \<open>None\<close>, as for any port failure. The mismatch
  is only printed.
\<close>

theorem mismatch_not_returned_counterexample:
  "spec_validate_frame 7 0x01 [0x01, 0x03, 0x02, 0x00, 0xC8, 0xD2, 0xB9] = Inl ChecksumMismatch \<and>
   receive_data_with_crc
     \<lparr>rx = map Byte [0x01, 0x03, 0x02, 0x00, 0xC8, 0xD2, 0xB9], wr = [], tx = [], out = []\<rparr> =
   None \<and>
   receive_data_with_crc
     \<lparr>rx = map Byte [0x01, 0x03, 0x02, 0x00, 0xC8, 0xD2, 0xB9] @ [Fault],
      wr = [], tx = [], out = []\<rparr> =
   Some (None,
     \<lparr>rx = [], wr = [], tx = [], out = [CrcMismatch 0xB9D2 0xD2B9, SerialError]\<rparr>)"
proof (intro conjI)
  show "spec_validate_frame 7 0x01 [0x01, 0x03, 0x02, 0x00, 0xC8, 0xD2, 0xB9] = Inl ChecksumMismatch"
    by (subst spec_validate_complete_frame) (simp_all add: crc_of_response struct_unpack_H_def)
  show "receive_data_with_crc
     \<lparr>rx = map Byte [0x01, 0x03, 0x02, 0x00, 0xC8, 0xD2, 0xB9], wr = [], tx = [], out = []\<rparr> =
   None"
    by (rule receive_bad_frame_alone [of "[0x01, 0x03, 0x02, 0x00, 0xC8, 0xD2, 0xB9]"])
      (simp_all add: crc_of_response struct_unpack_H_def)
  show "receive_data_with_crc
     \<lparr>rx = map Byte [0x01, 0x03, 0x02, 0x00, 0xC8, 0xD2, 0xB9] @ [Fault],
      wr = [], tx = [], out = []\<rparr> =
   Some (None,
     \<lparr>rx = [], wr = [], tx = [], out = [CrcMismatch 0xB9D2 0xD2B9, SerialError]\<rparr>)"
    by code_simp
qed

text \<open>
  C4, amended: the receiver returns a sample value only for a 7-byte frame that has passed
  the CRC check (the value was decoded from seven consecutive bytes of the line, beginning
  with \<open>0x01\<close>, whose last two bytes read low byte first are the CRC16 of the first
  five, and these are the bytes consumed last). A frame that fails the check never yields
  a value, and its failure is not returned to the caller: the call prints the CRC mismatch
  and goes on exactly as a call on the rest of the line would, so whatever it returns
  comes from what follows the frame, and it never returns when nothing follows. The valid
  frame for 200 with its two CRC bytes swapped is such a frame.
\<close>

theorem value_only_after_crc_check:
  "(receive_data_with_crc s = Some (Some v, s') \<longrightarrow>
      (\<exists>frame skipped printed.
         rx s = skipped @ map Byte frame @ rx s' \<and>
         length frame = 7 \<and> frame ! 0 = 0x01 \<and>
         struct_unpack_H (drop 5 frame) = calculate_crc16 (take 5 frame) \<and>
         v = push_bit 8 (uint (frame ! 3)) OR uint (frame ! 4) \<and>
         out s' = out s @ printed @ [ValidFrame frame,
           Extracted (uint (frame ! 3)) (uint (frame ! 4)) v]))
   \<and> (length frame = 7 \<and> frame ! 0 = 0x01 \<and>
       struct_unpack_H (drop 5 frame) \<noteq> calculate_crc16 (take 5 frame) \<and>
       rx t = map Byte frame @ rest \<longrightarrow>
         receive_data_with_crc t =
           receive_data_with_crc
             (t\<lparr>rx := rest,
                out := out t @ [CrcMismatch (struct_unpack_H (drop 5 frame))
                                  (calculate_crc16 (take 5 frame))]\<rparr>))
   \<and> (rx u = map Byte [0x01, 0x03, 0x02, 0x00, 0xC8, 0xD2, 0xB9] @ rest' \<longrightarrow>
         receive_data_with_crc u =
           receive_data_with_crc (u\<lparr>rx := rest', out := out u @ [CrcMismatch 0xB9D2 0xD2B9]\<rparr>))
   \<and> (length frame = 7 \<and> frame ! 0 = 0x01 \<and>
       struct_unpack_H (drop 5 frame) \<noteq> calculate_crc16 (take 5 frame) \<and>
       rx w = map Byte frame \<longrightarrow>
         receive_data_with_crc w = None)"
proof (intro conjI impI)
  assume "receive_data_with_crc s = Some (Some v, s')"
  then show "\<exists>frame skipped printed.
         rx s = skipped @ map Byte frame @ rx s' \<and>
         length frame = 7 \<and> frame ! 0 = 0x01 \<and>
         struct_unpack_H (drop 5 frame) = calculate_crc16 (take 5 frame) \<and>
         v = push_bit 8 (uint (frame ! 3)) OR uint (frame ! 4) \<and>
         out s' = out s @ printed @ [ValidFrame frame,
           Extracted (uint (frame ! 3)) (uint (frame ! 4)) v]"
    by (rule receive_value_sound)
next
  assume "length frame = 7 \<and> frame ! 0 = 0x01 \<and>
       struct_unpack_H (drop 5 frame) \<noteq> calculate_crc16 (take 5 frame) \<and>
       rx t = map Byte frame @ rest"
  then have a: "length frame = 7" and b: "frame ! 0 = 0x01"
    and c: "struct_unpack_H (drop 5 frame) \<noteq> calculate_crc16 (take 5 frame)"
    and d: "rx t = map Byte frame @ rest"
    by blast+
  show "receive_data_with_crc t =
           receive_data_with_crc
             (t\<lparr>rx := rest,
                out := out t @ [CrcMismatch (struct_unpack_H (drop 5 frame))
                                  (calculate_crc16 (take 5 frame))]\<rparr>)"
    by (subst receive_full_frame [OF a b d]) (simp add: c)
next
  assume l: "rx u = map Byte [0x01, 0x03, 0x02, 0x00, 0xC8, 0xD2, 0xB9] @ rest'"
  show "receive_data_with_crc u =
           receive_data_with_crc (u\<lparr>rx := rest', out := out u @ [CrcMismatch 0xB9D2 0xD2B9]\<rparr>)"
    by (subst receive_full_frame [OF _ _ l]) (simp_all add: crc_of_response struct_unpack_H_def)
next
  assume "length frame = 7 \<and> frame ! 0 = 0x01 \<and>
       struct_unpack_H (drop 5 frame) \<noteq> calculate_crc16 (take 5 frame) \<and>
       rx w = map Byte frame"
  then show "receive_data_with_crc w = None"
    using receive_bad_frame_alone [of frame w] by blast
qed

theorem value_only_after_crc_check_witness:
  "struct_unpack_H (drop 5 [0x01, 0x03, 0x02, 0x00, 0xC8, 0xD2, 0xB9]) \<noteq>
     calculate_crc16 (take 5 [0x01, 0x03, 0x02, 0x00, 0xC8, 0xD2, 0xB9]) \<and>
   receive_data_with_crc
     \<lparr>rx = map Byte [0x01, 0x03, 0x02, 0x00, 0xC8, 0xD2, 0xB9] @
             map Byte [0x01, 0x03, 0x02, 0x00, 0xC8, 0xB9, 0xD2],
      wr = [], tx = [], out = []\<rparr> =
   Some (Some 200,
     \<lparr>rx = [], wr = [], tx = [],
      out = [CrcMismatch 0xB9D2 0xD2B9,
             ValidFrame [0x01, 0x03, 0x02, 0x00, 0xC8, 0xB9, 0xD2], Extracted 0 200 200]\<rparr>)"
proof -
  let ?bad = "[0x01, 0x03, 0x02, 0x00, 0xC8, 0xD2, 0xB9] :: byte list"
  let ?good = "[0x01, 0x03, 0x02, 0x00, 0xC8, 0xB9, 0xD2] :: byte list"
  let ?s = "\<lparr>rx = map Byte ?bad @ map Byte ?good, wr = [], tx = [], out = []\<rparr>"
  have n: "struct_unpack_H (drop 5 ?bad) \<noteq> calculate_crc16 (take 5 ?bad)"
    by (simp add: crc_of_response struct_unpack_H_def)
  have g: "receive_data_with_crc
      \<lparr>rx = map Byte ?good, wr = [], tx = [], out = [CrcMismatch 0xB9D2 0xD2B9]\<rparr> =
    Some (Some 200, \<lparr>rx = [], wr = [], tx = [],
      out = [CrcMismatch 0xB9D2 0xD2B9, ValidFrame ?good, Extracted 0 200 200]\<rparr>)"
    by (subst receive_full_frame [of ?good _ "[]"]) (simp_all add: crc_of_response struct_unpack_H_def)
  have "receive_data_with_crc ?s =
      receive_data_with_crc \<lparr>rx = map Byte ?good, wr = [], tx = [], out = [CrcMismatch 0xB9D2 0xD2B9]\<rparr>"
    using n value_only_after_crc_check [where frame = ?bad and t = ?s and rest = "map Byte ?good"]
    by (simp add: crc_of_response struct_unpack_H_def)
  with n g show ?thesis
    by simp
qed

text \<open>
  C6, as the specification states it, fails on the code. The specification's validation
  fails with \<open>ChecksumMismatch\<close> on the frame for 200 with its CRC bytes swapped, and
  with \<open>UnexpectedAddress\<close> on the seven bytes \<open>02 01 03 02 00 C8 B9\<close>. The receiver
  fails on neither: after the first it prints the mismatch and returns 200 from the frame
  that follows; on the second it drops the single byte \<open>02\<close> (the address test comes
  before any length test and before the rest of a frame is read) and returns 200 from the
  frame that starts at the next byte.
\<close>

theorem typed_errors_counterexample:
  "spec_validate_frame 7 0x01 [0x01, 0x03, 0x02, 0x00, 0xC8, 0xD2, 0xB9] = Inl ChecksumMismatch \<and>
   receive_data_with_crc
     \<lparr>rx = map Byte [0x01, 0x03, 0x02, 0x00, 0xC8, 0xD2, 0xB9] @
             map Byte [0x01, 0x03, 0x02, 0x00, 0xC8, 0xB9, 0xD2],
      wr = [], tx = [], out = []\<rparr> =
   Some (Some 200,
     \<lparr>rx = [], wr = [], tx = [],
      out = [CrcMismatch 0xB9D2 0xD2B9,
             ValidFrame [0x01, 0x03, 0x02, 0x00, 0xC8, 0xB9, 0xD2], Extracted 0 200 200]\<rparr>) \<and>
   spec_validate_frame 7 0x01 [0x02, 0x01, 0x03, 0x02, 0x00, 0xC8, 0xB9] = Inl UnexpectedAddress \<and>
   receive_data_with_crc
     \<lparr>rx = map Byte [0x02, 0x01, 0x03, 0x02, 0x00, 0xC8, 0xB9, 0xD2],
      wr = [], tx = [], out = []\<rparr> =
   Some (Some 200,
     \<lparr>rx = [], wr = [], tx = [],
      out = [ValidFrame [0x01, 0x03, 0x02, 0x00, 0xC8, 0xB9, 0xD2], Extracted 0 200 200]\<rparr>)"
proof (intro conjI)
  show "spec_validate_frame 7 0x01 [0x01, 0x03, 0x02, 0x00, 0xC8, 0xD2, 0xB9] = Inl ChecksumMismatch"
    by (subst spec_validate_complete_frame) (simp_all add: crc_of_response struct_unpack_H_def)
  show "receive_data_with_crc
     \<lparr>rx = map Byte [0x01, 0x03, 0x02, 0x00, 0xC8, 0xD2, 0xB9] @
             map Byte [0x01, 0x03, 0x02, 0x00, 0xC8, 0xB9, 0xD2],
      wr = [], tx = [], out = []\<rparr> =
   Some (Some 200,
     \<lparr>rx = [], wr = [], tx = [],
      out = [CrcMismatch 0xB9D2 0xD2B9,
             ValidFrame [0x01, 0x03, 0x02, 0x00, 0xC8, 0xB9, 0xD2], Extracted 0 200 200]\<rparr>)"
    by code_simp
  show "spec_validate_frame 7 0x01 [0x02, 0x01, 0x03, 0x02, 0x00, 0xC8, 0xB9] = Inl UnexpectedAddress"
    by (simp add: spec_validate_frame_def)
  show "receive_data_with_crc
     \<lparr>rx = map Byte [0x02, 0x01, 0x03, 0x02, 0x00, 0xC8, 0xB9, 0xD2],
      wr = [], tx = [], out = []\<rparr> =
   Some (Some 200,
     \<lparr>rx = [], wr = [], tx = [],
      out = [ValidFrame [0x01, 0x03, 0x02, 0x00, 0xC8, 0xB9, 0xD2], Extracted 0 200 200]\<rparr>)"
    by code_simp
qed

text \<open>
  C6, amended: the receiver tests in this order, and returns no error for any of them.
  First the byte it has read: when it is not \<open>0x01\<close>, this byte alone is dropped and the
  scan goes on, with nothing printed. Then the length: when the start byte and the bytes
  of the next read are fewer than 7, they are dropped and the scan goes on, with nothing
  printed. Then the CRC: on a complete frame the code decides as the specification's
  validation does (which can only fail there with \<open>ChecksumMismatch\<close>); when it fails,
  the mismatch is printed and the scan goes on; when it succeeds, the value is returned.
\<close>

theorem checks_in_code_order:
  "(rx s = Byte b # rest \<and> b \<noteq> 0x01 \<longrightarrow>
      receive_data_with_crc s = receive_data_with_crc (s\<lparr>rx := rest\<rparr>))
   \<and> (rx s = Byte 0x01 # map Byte bs @ Quiet # rest \<and> length bs < 6 \<longrightarrow>
      receive_data_with_crc s = receive_data_with_crc (s\<lparr>rx := rest\<rparr>))
   \<and> (rx s = map Byte frame @ rest \<and> length frame = 7 \<and> frame ! 0 = 0x01 \<longrightarrow>
      receive_data_with_crc s =
        (case spec_validate_frame 7 0x01 frame of
           Inr v \<Rightarrow>
             Some (Some v,
               s\<lparr>rx := rest,
                 out := out s @ [ValidFrame frame,
                   Extracted (uint (frame ! 3)) (uint (frame ! 4)) v]\<rparr>)
         | Inl e \<Rightarrow>
             receive_data_with_crc
               (s\<lparr>rx := rest,
                  out := out s @ [CrcMismatch (struct_unpack_H (drop 5 frame))
                                    (calculate_crc16 (take 5 frame))]\<rparr>)) \<and>
      (spec_validate_frame 7 0x01 frame = Inl ChecksumMismatch \<or>
       spec_validate_frame 7 0x01 frame =
         Inr (push_bit 8 (uint (frame ! 3)) OR uint (frame ! 4))))"
proof (intro conjI impI)
  assume "rx s = Byte b # rest \<and> b \<noteq> 0x01"
  then show "receive_data_with_crc s = receive_data_with_crc (s\<lparr>rx := rest\<rparr>)"
    using receive_other_byte [of s b rest] by blast
next
  assume "rx s = Byte 0x01 # map Byte bs @ Quiet # rest \<and> length bs < 6"
  then show "receive_data_with_crc s = receive_data_with_crc (s\<lparr>rx := rest\<rparr>)"
    using receive_short_frame(1) [of bs s rest] by blast
next
  assume h: "rx s = map Byte frame @ rest \<and> length frame = 7 \<and> frame ! 0 = 0x01"
  then have a: "length frame = 7" and b: "frame ! 0 = 0x01" and d: "rx s = map Byte frame @ rest"
    by blast+
  show "receive_data_with_crc s =
        (case spec_validate_frame 7 0x01 frame of
           Inr v \<Rightarrow>
             Some (Some v,
               s\<lparr>rx := rest,
                 out := out s @ [ValidFrame frame,
                   Extracted (uint (frame ! 3)) (uint (frame ! 4)) v]\<rparr>)
         | Inl e \<Rightarrow>
             receive_data_with_crc
               (s\<lparr>rx := rest,
                  out := out s @ [CrcMismatch (struct_unpack_H (drop 5 frame))
                                    (calculate_crc16 (take 5 frame))]\<rparr>))"
    unfolding receive_full_frame [OF a b d] spec_validate_complete_frame [OF a b]
    by simp
  show "spec_validate_frame 7 0x01 frame = Inl ChecksumMismatch \<or>
       spec_validate_frame 7 0x01 frame =
         Inr (push_bit 8 (uint (frame ! 3)) OR uint (frame ! 4))"
    unfolding spec_validate_complete_frame [OF a b] by simp
qed

theorem checks_in_code_order_witness:
  "receive_data_with_crc
     \<lparr>rx = Byte 0x07 # Byte 0x01 # map Byte [0x03, 0x02] @ Quiet #
             map Byte [0x01, 0x03, 0x02, 0x00, 0xC8, 0xB9, 0xD2] @ [Quiet],
      wr = [], tx = [], out = []\<rparr> =
   Some (Some 200,
     \<lparr>rx = [Quiet], wr = [], tx = [],
      out = [ValidFrame [0x01, 0x03, 0x02, 0x00, 0xC8, 0xB9, 0xD2], Extracted 0 200 200]\<rparr>)"
proof -
  let ?good = "[0x01, 0x03, 0x02, 0x00, 0xC8, 0xB9, 0xD2] :: byte list"
  let ?s3 = "\<lparr>rx = map Byte ?good @ [Quiet], wr = [], tx = [], out = []\<rparr>"
  let ?s2 = "\<lparr>rx = Byte 0x01 # map Byte [0x03, 0x02] @ Quiet # map Byte ?good @ [Quiet],
      wr = [], tx = [], out = []\<rparr>"
  let ?s1 = "\<lparr>rx = Byte 0x07 # Byte 0x01 # map Byte [0x03, 0x02] @ Quiet # map Byte ?good @ [Quiet],
      wr = [], tx = [], out = []\<rparr>"
  have v: "spec_validate_frame 7 0x01 ?good = Inr 200"
    by (subst spec_validate_complete_frame) (simp_all add: crc_of_response struct_unpack_H_def)
  have "receive_data_with_crc ?s1 = receive_data_with_crc ?s2"
    using checks_in_code_order [of ?s1 "0x07" "rx ?s2"] by simp
  also have "\<dots> = receive_data_with_crc ?s3"
    using checks_in_code_order [of ?s2 _ "rx ?s3" "[0x03, 0x02]"] by simp
  also have "\<dots> = Some (Some 200,
     \<lparr>rx = [Quiet], wr = [], tx = [],
      out = [ValidFrame ?good, Extracted 0 200 200]\<rparr>)"
    using checks_in_code_order [of ?s3 _ "[Quiet]" _ ?good] by (simp add: v)
  finally show ?thesis
    by simp
qed

section \<open>Timeouts and partial frames\<close>

lemma silent_line_never_returns:
  "receive_data_with_crc \<lparr>rx = [], wr = [], tx = [], out = []\<rparr> = None"
  by (rule receive_silent) simp

text \<open>
  C7, as the specification states it, fails on the code: on a line that stays silent the
  call never returns (no \<open>Timeout\<close> error comes back), and after two reads that timed
  out before any start byte the same call is still scanning and returns the value of the
  frame that arrives then.
\<close>

theorem timeout_counterexample:
  "receive_data_with_crc \<lparr>rx = [], wr = [], tx = [], out = []\<rparr> = None \<and>
   receive_data_with_crc
     \<lparr>rx = Quiet # Quiet # map Byte [0x01, 0x03, 0x02, 0x00, 0xC8, 0xB9, 0xD2],
      wr = [], tx = [], out = []\<rparr> =
   Some (Some 200,
     \<lparr>rx = [], wr = [], tx = [],
      out = [ValidFrame [0x01, 0x03, 0x02, 0x00, 0xC8, 0xB9, 0xD2], Extracted 0 200 200]\<rparr>)"
proof
  show "receive_data_with_crc \<lparr>rx = [], wr = [], tx = [], out = []\<rparr> = None"
    by (rule silent_line_never_returns)
  show "receive_data_with_crc
     \<lparr>rx = Quiet # Quiet # map Byte [0x01, 0x03, 0x02, 0x00, 0xC8, 0xB9, 0xD2],
      wr = [], tx = [], out = []\<rparr> =
   Some (Some 200,
     \<lparr>rx = [], wr = [], tx = [],
      out = [ValidFrame [0x01, 0x03, 0x02, 0x00, 0xC8, 0xB9, 0xD2], Extracted 0 200 200]\<rparr>)"
    by code_simp
qed

text \<open>
  C7, amended: while scanning for a start byte the receiver drops every byte that is not
  \<open>0x01\<close>; when the one-byte read times out it reads again, within the same call; and
  on a line that brings neither a start byte nor a port failure the call never returns.
\<close>

theorem scan_skips_and_waits:
  "(rx s = Byte b # rest \<and> b \<noteq> 0x01 \<longrightarrow>
      receive_data_with_crc s = receive_data_with_crc (s\<lparr>rx := rest\<rparr>))
   \<and> (rx s = Quiet # rest \<longrightarrow>
      receive_data_with_crc s = receive_data_with_crc (s\<lparr>rx := rest\<rparr>))
   \<and> ((\<forall>ev \<in> set (rx s). ev \<noteq> Fault \<and> ev \<noteq> Byte 0x01) \<longrightarrow>
      receive_data_with_crc s = None)"
proof (intro conjI impI)
  assume "rx s = Byte b # rest \<and> b \<noteq> 0x01"
  then show "receive_data_with_crc s = receive_data_with_crc (s\<lparr>rx := rest\<rparr>)"
    using receive_other_byte [of s b rest] by blast
next
  assume "rx s = Quiet # rest"
  then show "receive_data_with_crc s = receive_data_with_crc (s\<lparr>rx := rest\<rparr>)"
    by (rule receive_quiet)
next
  assume "\<forall>ev \<in> set (rx s). ev \<noteq> Fault \<and> ev \<noteq> Byte 0x01"
  then show "receive_data_with_crc s = None"
    by (rule receive_never_without_start)
qed

theorem scan_skips_and_waits_witness:
  "receive_data_with_crc
     \<lparr>rx = [Byte 0x55, Quiet, Byte 0x02, Quiet], wr = [], tx = [], out = []\<rparr> =
   receive_data_with_crc \<lparr>rx = [Quiet, Byte 0x02, Quiet], wr = [], tx = [], out = []\<rparr> \<and>
   receive_data_with_crc
     \<lparr>rx = [Quiet, Byte 0x02, Quiet], wr = [], tx = [], out = []\<rparr> =
   receive_data_with_crc \<lparr>rx = [Byte 0x02, Quiet], wr = [], tx = [], out = []\<rparr> \<and>
   receive_data_with_crc
     \<lparr>rx = [Byte 0x55, Quiet, Byte 0x02, Quiet], wr = [], tx = [], out = []\<rparr> = None"
proof (intro conjI)
  let ?a = "\<lparr>rx = [Byte 0x55, Quiet, Byte 0x02, Quiet], wr = [], tx = [], out = []\<rparr>"
  let ?b = "\<lparr>rx = [Quiet, Byte 0x02, Quiet], wr = [], tx = [], out = []\<rparr>"
  let ?c = "\<lparr>rx = [Byte 0x02, Quiet], wr = [], tx = [], out = []\<rparr>"
  note w = scan_skips_and_waits [of ?a "0x55" "[Quiet, Byte 0x02, Quiet]"]
  show "receive_data_with_crc ?a = receive_data_with_crc ?b"
    using w [THEN conjunct1] by simp
  show "receive_data_with_crc ?b = receive_data_with_crc ?c"
    using scan_skips_and_waits [of ?b _ "[Byte 0x02, Quiet]", THEN conjunct2, THEN conjunct1]
    by simp
  show "receive_data_with_crc ?a = None"
    using w [THEN conjunct2, THEN conjunct2] by simp
qed

text \<open>
  C8, as the specification states it, fails on the code: here a start byte is followed by
  two bytes and a timeout. The partial frame is dropped, but nothing reports it: no line
  is printed for it and the call does not come back with an error; it returns the value
  of the next frame, and the only lines printed are those of that frame.
\<close>

theorem incomplete_frame_counterexample:
  "receive_data_with_crc
     \<lparr>rx = Byte 0x01 # Byte 0x03 # Byte 0x02 # Quiet #
             map Byte [0x01, 0x03, 0x02, 0x00, 0xC8, 0xB9, 0xD2],
      wr = [], tx = [], out = []\<rparr> =
   Some (Some 200,
     \<lparr>rx = [], wr = [], tx = [],
      out = [ValidFrame [0x01, 0x03, 0x02, 0x00, 0xC8, 0xB9, 0xD2], Extracted 0 200 200]\<rparr>)"
  by code_simp

text \<open>
  C8, amended: when fewer than 6 bytes follow the start byte before the read times out,
  the partial frame is dropped as a whole and without any report: the call goes on exactly
  as a call on the rest of the line would, in the same state (nothing kept, nothing
  printed), starting again at the scan for a start byte; when the line stays silent after
  the partial frame, the call never returns.
\<close>

theorem partial_frame_dropped:
  "(length bs < 6 \<and> rx s = Byte 0x01 # map Byte bs @ Quiet # rest \<longrightarrow>
      receive_data_with_crc s = receive_data_with_crc (s\<lparr>rx := rest\<rparr>))
   \<and> (length bs < 6 \<and> rx s = Byte 0x01 # map Byte bs \<longrightarrow>
      receive_data_with_crc s = None)"
proof (intro conjI impI)
  assume "length bs < 6 \<and> rx s = Byte 0x01 # map Byte bs @ Quiet # rest"
  then show "receive_data_with_crc s = receive_data_with_crc (s\<lparr>rx := rest\<rparr>)"
    using receive_short_frame(1) [of bs s rest] by blast
next
  assume "length bs < 6 \<and> rx s = Byte 0x01 # map Byte bs"
  then show "receive_data_with_crc s = None"
    using receive_short_frame(2) [of bs s] by blast
qed

theorem partial_frame_dropped_witness:
  "length [0x03, 0x02, 0x00 :: byte] < 6 \<and>
   receive_data_with_crc
     \<lparr>rx = Byte 0x01 # map Byte [0x03, 0x02, 0x00] @ Quiet # [Byte 0x09, Fault],
      wr = [], tx = [], out = [SerialError]\<rparr> =
   receive_data_with_crc \<lparr>rx = [Byte 0x09, Fault], wr = [], tx = [], out = [SerialError]\<rparr> \<and>
   receive_data_with_crc
     \<lparr>rx = Byte 0x01 # map Byte [0x03, 0x02, 0x00], wr = [], tx = [], out = []\<rparr> = None"
  using partial_frame_dropped
      [of "[0x03, 0x02, 0x00]"
        "\<lparr>rx = Byte 0x01 # map Byte [0x03, 0x02, 0x00] @ Quiet # [Byte 0x09, Fault],
          wr = [], tx = [], out = [SerialError]\<rparr>" "[Byte 0x09, Fault]"]
    partial_frame_dropped
      [of "[0x03, 0x02, 0x00]"
        "\<lparr>rx = Byte 0x01 # map Byte [0x03, 0x02, 0x00], wr = [], tx = [], out = []\<rparr>"]
  by simp

section \<open>Port failures and the poll loop\<close>










end
